theory Spec2Isabelle
  imports Main
begin

section \<open>Roman numeral converter: the model\<close>

text \<open>
  A shallow embedding of \<^verbatim>\<open>converter.c\<close>. A C string is modelled by the list of its bytes
  before the terminating NUL, so the loop condition \<^verbatim>\<open>roman[i]\<close> reads \<open>i < length roman\<close>
  and \<^verbatim>\<open>roman[i + 1]\<close> is the terminator exactly when \<open>Suc i = length roman\<close>. The C
  \<^verbatim>\<open>int\<close>s are modelled by \<open>int\<close>: every value the functions compute on the inputs
  considered here stays far below \<open>2^31\<close> (see \<open>roman_converter_loop_bound\<close>).
\<close>

subsection \<open>Constants\<close>

definition MAX_ROMAN_LENGTH :: nat where
  "MAX_ROMAN_LENGTH = 20"

definition ROMAN_MAX :: int where
  "ROMAN_MAX = 3999"

definition ROMAN_MIN :: int where
  "ROMAN_MIN = 1"

definition EXIT_PROGRAM :: int where
  "EXIT_PROGRAM = - 1"

definition EXIT_OK :: int where
  "EXIT_OK = 0"

definition EXIT_EMPTY_ERR :: int where
  "EXIT_EMPTY_ERR = 2"

definition EXIT_INVALID_INPUT :: int where
  "EXIT_INVALID_INPUT = 4"

subsection \<open>Symbol values\<close>

definition roman_value :: "char \<Rightarrow> int" where
  "roman_value c =
     (if c = CHR ''I'' then 1
      else if c = CHR ''V'' then 5
      else if c = CHR ''X'' then 10
      else if c = CHR ''L'' then 50
      else if c = CHR ''C'' then 100
      else if c = CHR ''D'' then 500
      else if c = CHR ''M'' then 1000
      else 0)"

subsection \<open>Numeral evaluator: \<^verbatim>\<open>roman_converter\<close>\<close>

function roman_converter_loop :: "string \<Rightarrow> nat \<Rightarrow> int \<Rightarrow> int" where
  "roman_converter_loop roman i total_v =
     (if i < length roman then
        (let current_value = roman_value (roman ! i);
             next_value = (if Suc i < length roman then roman_value (roman ! Suc i) else 0)
         in if current_value < next_value
            then roman_converter_loop roman (Suc i) (total_v - current_value)
            else roman_converter_loop roman (Suc i) (total_v + current_value))
      else total_v)"
  by pat_completeness auto
termination
  by (relation "measure (\<lambda>(roman, i, total_v). length roman - i)") auto

declare roman_converter_loop.simps [simp del]

definition roman_converter :: "string \<Rightarrow> int" where
  "roman_converter roman = roman_converter_loop roman 0 0"

subsection \<open>Integer converter: \<^verbatim>\<open>int_converter\<close>\<close>

definition values_tab :: "int list" where
  "values_tab = [1000, 900, 500, 400, 100, 90, 50, 40, 10, 9, 5, 4, 1]"

definition symbols :: "string list" where
  "symbols = [''M'', ''CM'', ''D'', ''CD'', ''C'', ''XC'', ''L'', ''XL'', ''X'', ''IX'',
              ''V'', ''IV'', ''I'']"

text \<open>
  \<^verbatim>\<open>strcat\<close> into the buffer of \<open>MAX_ROMAN_LENGTH\<close> bytes that \<^verbatim>\<open>int_converter\<close>
  allocates: the result and its terminator must fit, otherwise the write is out of bounds
  (\<open>None\<close>).
\<close>

definition strcat :: "string \<Rightarrow> string \<Rightarrow> string option" where
  "strcat dest src =
     (if length dest + length src + 1 \<le> MAX_ROMAN_LENGTH then Some (dest @ src) else None)"

text \<open>
  The inner \<^verbatim>\<open>while (num >= values[i])\<close>. It only runs under the \<^verbatim>\<open>for\<close> loop's
  condition \<open>i < 13\<close>, which is repeated in the guard so that \<open>values_tab ! i\<close> is never read
  out of range.
\<close>

function int_converter_while :: "nat \<Rightarrow> int \<Rightarrow> string \<Rightarrow> (int \<times> string) option" where
  "int_converter_while i num roman =
     (if i < length values_tab \<and> num \<ge> values_tab ! i then
        (case strcat roman (symbols ! i) of
           None \<Rightarrow> None
         | Some roman' \<Rightarrow> int_converter_while i (num - values_tab ! i) roman')
      else Some (num, roman))"
  by pat_completeness auto
termination
proof (relation "measure (\<lambda>(i, num, roman). nat num)")
  show "wf (measure (\<lambda>(i, num, roman). nat num))"
    by simp
next
  fix i :: nat and num :: int and roman x2 :: string
  assume a: "i < length values_tab \<and> values_tab ! i \<le> num"
  then have "values_tab ! i \<in> set values_tab"
    by simp
  then have "0 < values_tab ! i"
    by (auto simp: values_tab_def)
  with a show "((i, num - values_tab ! i, x2), (i, num, roman))
      \<in> measure (\<lambda>(i, num, roman). nat num)"
    by simp
qed

declare int_converter_while.simps [simp del]

function int_converter_for :: "nat \<Rightarrow> int \<Rightarrow> string \<Rightarrow> string option" where
  "int_converter_for i num roman =
     (if num > 0 \<and> i < length values_tab then
        (case int_converter_while i num roman of
           None \<Rightarrow> None
         | Some (num', roman') \<Rightarrow> int_converter_for (Suc i) num' roman')
      else Some roman)"
  by pat_completeness auto
termination
  by (relation "measure (\<lambda>(i, num, roman). length values_tab - i)") auto

declare int_converter_for.simps [simp del]

definition int_converter :: "int \<Rightarrow> string option" where
  "int_converter num = int_converter_for 0 num []"

subsection \<open>Structural validator: \<^verbatim>\<open>validate_roman\<close>\<close>

record vstate =
  repeat :: int
  max_v :: int
  last_subtractive_value :: int
  last_subtractive :: bool
  v_repeat :: bool
  l_repeat :: bool
  d_repeat :: bool

definition is_valid_subtractive :: "int \<Rightarrow> int \<Rightarrow> bool" where
  "is_valid_subtractive prev_v curr_v \<longleftrightarrow>
     (prev_v = 1 \<and> (curr_v = 5 \<or> curr_v = 10)) \<or>
     (prev_v = 10 \<and> (curr_v = 50 \<or> curr_v = 100)) \<or>
     (prev_v = 100 \<and> (curr_v = 500 \<or> curr_v = 1000))"

definition can_subsequently_repeat :: "int \<Rightarrow> int \<Rightarrow> bool" where
  "can_subsequently_repeat v repeat_count =
     (if (v = 1 \<or> v = 10 \<or> v = 100 \<or> v = 1000) \<and> repeat_count > 3 then False else True)"

text \<open>
  \<^verbatim>\<open>cannot_repeat\<close> writes through its three flag pointers; the model returns the
  updated flags with the result.
\<close>

definition cannot_repeat :: "int \<Rightarrow> vstate \<Rightarrow> bool \<times> vstate" where
  "cannot_repeat v st =
     (if v = 5 then (if v_repeat st then (True, st) else (False, st\<lparr>v_repeat := True\<rparr>))
      else if v = 50 then (if l_repeat st then (True, st) else (False, st\<lparr>l_repeat := True\<rparr>))
      else if v = 500 then (if d_repeat st then (True, st) else (False, st\<lparr>d_repeat := True\<rparr>))
      else (False, st))"

text \<open>
  One iteration of the \<^verbatim>\<open>for\<close> loop of \<^verbatim>\<open>validate_roman\<close>, in the order of the
  source: \<open>None\<close> is \<^verbatim>\<open>return false\<close>, \<open>Some st\<close> continues with the updated locals.
\<close>

definition validate_body :: "string \<Rightarrow> nat \<Rightarrow> vstate \<Rightarrow> vstate option" where
  "validate_body roman i st0 =
     (let current_value = roman_value (roman ! i) in
      if current_value = 0 then None
      else case cannot_repeat current_value st0 of
        (True, _) \<Rightarrow> None
      | (False, st1) \<Rightarrow>
          if i = 0 then Some st1
          else
            let prev_value = roman_value (roman ! (i - 1)) in
            if current_value = prev_value \<and>
               \<not> can_subsequently_repeat current_value (repeat st1 + 1) then None
            else
              let st2 = st1\<lparr>repeat := (if current_value = prev_value then repeat st1 + 1 else 1)\<rparr> in
              if prev_value < current_value \<and>
                 (\<not> is_valid_subtractive prev_value current_value \<or>
                  last_subtractive st2 \<or>
                  current_value > max_v st2 \<or>
                  prev_value = last_subtractive_value st2) then None
              else if \<not> prev_value < current_value \<and>
                 (prev_value > max_v st2 \<or> current_value = last_subtractive_value st2) then None
              else
                let st3 = (if prev_value < current_value
                           then st2\<lparr>last_subtractive_value := prev_value,
                                    max_v := current_value,
                                    last_subtractive := True\<rparr>
                           else st2\<lparr>max_v := prev_value, last_subtractive := False\<rparr>) in
                if i > 1 \<and> roman_value (roman ! (i - 2)) < current_value \<and>
                   prev_value < current_value then None
                else if last_subtractive st3 \<and> Suc i < length roman \<and>
                   roman_value (roman ! Suc i) > last_subtractive_value st3 then None
                else Some st3)"

function validate_loop :: "string \<Rightarrow> nat \<Rightarrow> vstate \<Rightarrow> bool" where
  "validate_loop roman i st =
     (if i < length roman then
        (case validate_body roman i st of
           None \<Rightarrow> False
         | Some st' \<Rightarrow> validate_loop roman (Suc i) st')
      else True)"
  by pat_completeness auto
termination
  by (relation "measure (\<lambda>(roman, i, st). length roman - i)") auto

declare validate_loop.simps [simp del]

definition init_vstate :: vstate where
  "init_vstate = \<lparr>repeat = 1, max_v = 1000, last_subtractive_value = 0,
     last_subtractive = False, v_repeat = False, l_repeat = False, d_repeat = False\<rparr>"

definition validate_roman :: "string \<Rightarrow> bool" where
  "validate_roman roman = validate_loop roman 0 init_vstate"

subsection \<open>Pattern validator: \<^verbatim>\<open>regex_roman\<close>\<close>

text \<open>
  \<^verbatim>\<open>regex_roman\<close> compiles the fixed extended regular expression
  \<^verbatim>\<open>^M{0,3}(CM|CD|D?C{0,3})(XC|XL|L?X{0,3})(IX|IV|V?I{0,3})$\<close> and returns whether
  \<^verbatim>\<open>regexec\<close> finds a match. The C library is not part of the program; it is modelled by
  the operators the pattern uses, with their POSIX meaning (\<open>lang\<close>), and by a matcher
  working with derivatives (\<open>matches\<close>), which \<open>matches_lang\<close> shows to decide \<open>lang\<close>. Both
  anchors are present, so a match is a match of the whole string. Compilation of this
  constant pattern is taken to succeed.
\<close>

datatype rexp =
    NoMatch
  | Epsilon
  | Sym char
  | Cat rexp rexp
  | Or rexp rexp
  | Optional rexp
  | AtMost nat rexp

definition conc :: "string set \<Rightarrow> string set \<Rightarrow> string set" where
  "conc A B = {u @ v | u v. u \<in> A \<and> v \<in> B}"

text \<open>The size of an expression, counting the bound of a repetition.\<close>

primrec rsize :: "rexp \<Rightarrow> nat" where
  "rsize NoMatch = 1"
| "rsize Epsilon = 1"
| "rsize (Sym c) = 1"
| "rsize (Cat r s) = Suc (rsize r + rsize s)"
| "rsize (Or r s) = Suc (rsize r + rsize s)"
| "rsize (Optional r) = Suc (rsize r)"
| "rsize (AtMost n r) = Suc (n + rsize r)"

function lang :: "rexp \<Rightarrow> string set" where
  "lang NoMatch = {}"
| "lang Epsilon = {[]}"
| "lang (Sym c) = {[c]}"
| "lang (Cat r s) = conc (lang r) (lang s)"
| "lang (Or r s) = lang r \<union> lang s"
| "lang (Optional r) = insert [] (lang r)"
| "lang (AtMost 0 r) = {[]}"
| "lang (AtMost (Suc n) r) = insert [] (conc (lang r) (lang (AtMost n r)))"
  by pat_completeness auto
termination
  by (relation "measure rsize") auto

fun nullable :: "rexp \<Rightarrow> bool" where
  "nullable NoMatch = False"
| "nullable Epsilon = True"
| "nullable (Sym c) = False"
| "nullable (Cat r s) = (nullable r \<and> nullable s)"
| "nullable (Or r s) = (nullable r \<or> nullable s)"
| "nullable (Optional r) = True"
| "nullable (AtMost n r) = True"

text \<open>Concatenation and alternative that drop the parts that cannot match.\<close>

fun cat_s :: "rexp \<Rightarrow> rexp \<Rightarrow> rexp" where
  "cat_s NoMatch s = NoMatch"
| "cat_s Epsilon s = s"
| "cat_s r s = Cat r s"

fun or_s :: "rexp \<Rightarrow> rexp \<Rightarrow> rexp" where
  "or_s NoMatch s = s"
| "or_s r NoMatch = r"
| "or_s r s = Or r s"

function deriv :: "char \<Rightarrow> rexp \<Rightarrow> rexp" where
  "deriv c NoMatch = NoMatch"
| "deriv c Epsilon = NoMatch"
| "deriv c (Sym d) = (if c = d then Epsilon else NoMatch)"
| "deriv c (Cat r s) =
     (if nullable r then or_s (cat_s (deriv c r) s) (deriv c s) else cat_s (deriv c r) s)"
| "deriv c (Or r s) = or_s (deriv c r) (deriv c s)"
| "deriv c (Optional r) = deriv c r"
| "deriv c (AtMost 0 r) = NoMatch"
| "deriv c (AtMost (Suc n) r) =
     (if nullable r then or_s (cat_s (deriv c r) (AtMost n r)) (deriv c (AtMost n r))
      else cat_s (deriv c r) (AtMost n r))"
  by pat_completeness auto
termination
  by (relation "measure (\<lambda>(c, r). rsize r)") auto

fun matches :: "rexp \<Rightarrow> string \<Rightarrow> bool" where
  "matches r [] = nullable r"
| "matches r (c # cs) = matches (deriv c r) cs"

definition pattern :: rexp where
  "pattern =
     Cat (AtMost 3 (Sym CHR ''M''))
    (Cat (Or (Cat (Sym CHR ''C'') (Sym CHR ''M''))
         (Or (Cat (Sym CHR ''C'') (Sym CHR ''D''))
             (Cat (Optional (Sym CHR ''D'')) (AtMost 3 (Sym CHR ''C'')))))
    (Cat (Or (Cat (Sym CHR ''X'') (Sym CHR ''C''))
         (Or (Cat (Sym CHR ''X'') (Sym CHR ''L''))
             (Cat (Optional (Sym CHR ''L'')) (AtMost 3 (Sym CHR ''X'')))))
         (Or (Cat (Sym CHR ''I'') (Sym CHR ''X''))
         (Or (Cat (Sym CHR ''I'') (Sym CHR ''V''))
             (Cat (Optional (Sym CHR ''V'')) (AtMost 3 (Sym CHR ''I'')))))))"

definition regex_roman :: "string \<Rightarrow> bool" where
  "regex_roman roman = matches pattern roman"

subsection \<open>Input screening by the caller: \<^verbatim>\<open>validate_input\<close>\<close>

text \<open>
  \<^verbatim>\<open>validate_input\<close> receives the buffer filled by \<^verbatim>\<open>fgets\<close>. It reports an overflow
  when the buffer holds no newline, cuts the buffer at the first newline, and rejects the
  empty line before either validator is called. The model returns the status with the
  buffer as the call leaves it; draining \<^verbatim>\<open>stdin\<close> after an overflow is not modelled.
  \<^verbatim>\<open>toupper(input[0]) == 'Q'\<close> holds for the two letters Q and q.
\<close>

definition input_overflow_check :: "string \<Rightarrow> bool" where
  "input_overflow_check input = (CHR 0x0A \<notin> set input)"

definition validate_input :: "string \<Rightarrow> int \<times> string" where
  "validate_input input =
     (if input_overflow_check input then (EXIT_INVALID_INPUT, input)
      else
        let line = takeWhile (\<lambda>c. c \<noteq> CHR 0x0A) input in
        if line = [] then (EXIT_EMPTY_ERR, line)
        else if (hd line = CHR ''Q'' \<or> hd line = CHR ''q'') \<and> length line = 1
          then (EXIT_PROGRAM, line)
        else (EXIT_OK, line))"

section \<open>Definitions used in the proofs\<close>

subsection \<open>The validator as an automaton\<close>

text \<open>
  The scan of \<^verbatim>\<open>validate_roman\<close> as a step function on a state that does not look at
  the string: the locals, \<open>min i 2\<close>, and the values of the two symbols read last. The
  next-character check of an iteration is made at the start of the following step.
\<close>

type_synonym scan = "vstate \<times> nat \<times> int \<times> int"

definition vstep :: "scan \<Rightarrow> char \<Rightarrow> scan option" where
  "vstep s c =
     (case s of (st0, k, pp, p) \<Rightarrow>
      let current_value = roman_value c in
      if last_subtractive st0 \<and> current_value > last_subtractive_value st0 then None
      else if current_value = 0 then None
      else case cannot_repeat current_value st0 of
        (True, _) \<Rightarrow> None
      | (False, st1) \<Rightarrow>
          if k = 0 then Some (st1, 1, 0, current_value)
          else
            if current_value = p \<and>
               \<not> can_subsequently_repeat current_value (repeat st1 + 1) then None
            else
              let st2 = st1\<lparr>repeat := (if current_value = p then repeat st1 + 1 else 1)\<rparr> in
              if p < current_value \<and>
                 (\<not> is_valid_subtractive p current_value \<or>
                  last_subtractive st2 \<or>
                  current_value > max_v st2 \<or>
                  p = last_subtractive_value st2) then None
              else if \<not> p < current_value \<and>
                 (p > max_v st2 \<or> current_value = last_subtractive_value st2) then None
              else
                let st3 = (if p < current_value
                           then st2\<lparr>last_subtractive_value := p,
                                    max_v := current_value,
                                    last_subtractive := True\<rparr>
                           else st2\<lparr>max_v := p, last_subtractive := False\<rparr>) in
                if k > 1 \<and> pp < current_value \<and> p < current_value then None
                else Some (st3, 2, p, current_value))"

fun vrun :: "scan option \<Rightarrow> string \<Rightarrow> scan option" where
  "vrun s [] = s"
| "vrun None (c # cs) = None"
| "vrun (Some s) (c # cs) = vrun (vstep s c) cs"

definition init_scan :: scan where
  "init_scan = (init_vstate, 0, 0, 0)"

definition scan_at :: "string \<Rightarrow> nat \<Rightarrow> vstate \<Rightarrow> scan" where
  "scan_at roman i st =
     (st, min i 2,
      (if 2 \<le> i then roman_value (roman ! (i - 2)) else 0),
      (if 1 \<le> i then roman_value (roman ! (i - 1)) else 0))"

definition ahead_ok :: "vstate \<Rightarrow> string \<Rightarrow> nat \<Rightarrow> bool" where
  "ahead_ok st roman i \<longleftrightarrow>
     \<not> (last_subtractive st \<and> i < length roman \<and>
        roman_value (roman ! i) > last_subtractive_value st)"

text \<open>
  The checks an iteration makes on the pair of the previous and the current symbol, with
  what follows them left open (\<open>cont\<close>): the loop goes on to the next-character check, the
  automaton to its next state.
\<close>

definition pair_checks ::
  "bool \<Rightarrow> int \<Rightarrow> int \<Rightarrow> int \<Rightarrow> vstate \<Rightarrow> (vstate \<Rightarrow> 'a option) \<Rightarrow> 'a option" where
  "pair_checks deep pp p current_value st1 cont =
     (if current_value = p \<and>
         \<not> can_subsequently_repeat current_value (repeat st1 + 1) then None
      else
        let st2 = st1\<lparr>repeat := (if current_value = p then repeat st1 + 1 else 1)\<rparr> in
        if p < current_value \<and>
           (\<not> is_valid_subtractive p current_value \<or>
            last_subtractive st2 \<or>
            current_value > max_v st2 \<or>
            p = last_subtractive_value st2) then None
        else if \<not> p < current_value \<and>
           (p > max_v st2 \<or> current_value = last_subtractive_value st2) then None
        else
          let st3 = (if p < current_value
                     then st2\<lparr>last_subtractive_value := p,
                              max_v := current_value,
                              last_subtractive := True\<rparr>
                     else st2\<lparr>max_v := p, last_subtractive := False\<rparr>) in
          if deep \<and> pp < current_value \<and> p < current_value then None
          else cont st3)"

subsection \<open>Comparing the automaton with the pattern\<close>

definition alphabet :: "char list" where
  "alphabet = ''IVXLCDM''"

text \<open>
  \<open>agree n s r\<close> walks the tree of all strings of length below \<open>n\<close> that the automaton
  accepts from \<open>s\<close>: the pattern's residual \<open>r\<close> must accept at every node, and must be dead
  wherever the automaton rejects a symbol. Running out of depth is a failure.
\<close>

fun agree :: "nat \<Rightarrow> scan \<Rightarrow> rexp \<Rightarrow> bool"
  and agree_list :: "nat \<Rightarrow> scan \<Rightarrow> rexp \<Rightarrow> char list \<Rightarrow> bool" where
  "agree 0 s r = False"
| "agree (Suc n) s r = (if nullable r then agree_list n s r alphabet else False)"
| "agree_list n s r [] = True"
| "agree_list n s r (c # cs) =
     (case vstep s c of
        None \<Rightarrow> (if deriv c r = NoMatch then agree_list n s r cs else False)
      | Some s' \<Rightarrow> (if agree n s' (deriv c r) then agree_list n s r cs else False))"

fun symbols_of :: "rexp \<Rightarrow> char set" where
  "symbols_of NoMatch = {}"
| "symbols_of Epsilon = {}"
| "symbols_of (Sym c) = {c}"
| "symbols_of (Cat r s) = symbols_of r \<union> symbols_of s"
| "symbols_of (Or r s) = symbols_of r \<union> symbols_of s"
| "symbols_of (Optional r) = symbols_of r"
| "symbols_of (AtMost n r) = symbols_of r"

subsection \<open>The canonical numeral of a number\<close>

text \<open>
  The usual decimal construction of a Roman numeral, digit by digit; the proofs show that
  the converter, the evaluator and both validators agree with it.
\<close>

definition digit_numeral :: "char \<Rightarrow> char \<Rightarrow> char \<Rightarrow> nat \<Rightarrow> string" where
  "digit_numeral one five ten d =
     (if d = 0 then []
      else if d = 1 then [one]
      else if d = 2 then [one, one]
      else if d = 3 then [one, one, one]
      else if d = 4 then [one, five]
      else if d = 5 then [five]
      else if d = 6 then [five, one]
      else if d = 7 then [five, one, one]
      else if d = 8 then [five, one, one, one]
      else [one, ten])"

definition canonical :: "nat \<Rightarrow> string" where
  "canonical n =
     replicate (n div 1000) CHR ''M'' @
     digit_numeral CHR ''C'' CHR ''D'' CHR ''M'' (n div 100 mod 10) @
     digit_numeral CHR ''X'' CHR ''L'' CHR ''C'' (n div 10 mod 10) @
     digit_numeral CHR ''I'' CHR ''V'' CHR ''X'' (n mod 10)"

text \<open>The evaluator as a recursion on the string.\<close>

fun eval_from :: "string \<Rightarrow> int" where
  "eval_from [] = 0"
| "eval_from [c] = roman_value c"
| "eval_from (c # d # cs) =
     (if roman_value c < roman_value d then - roman_value c else roman_value c) +
     eval_from (d # cs)"

section \<open>Proofs\<close>

subsection \<open>Regular expressions: the matcher decides the language\<close>

lemma conc_empty [simp]: "conc {} B = {}" "conc A {} = {}"
  by (auto simp: conc_def)

lemma conc_eps [simp]: "conc {[]} B = B" "conc A {[]} = A"
  by (auto simp: conc_def)

lemma conc_Un: "conc (A \<union> B) C = conc A C \<union> conc B C"
  by (auto simp: conc_def)

lemma conc_insert_eps: "conc (insert [] A) C = C \<union> conc A C"
  by (auto simp: conc_def)

lemma Nil_in_conc: "[] \<in> conc A B \<longleftrightarrow> [] \<in> A \<and> [] \<in> B"
  by (auto simp: conc_def)

lemma nullable_lang: "nullable r \<longleftrightarrow> [] \<in> lang r"
  by (induction r rule: lang.induct) (auto simp: Nil_in_conc)

lemma lang_cat_s: "lang (cat_s r s) = conc (lang r) (lang s)"
  by (induction r s rule: cat_s.induct) simp_all

lemma lang_or_s: "lang (or_s r s) = lang r \<union> lang s"
  by (induction r s rule: or_s.induct) simp_all

lemma deriv_conc:
  "{w. c # w \<in> conc A B} =
     conc {w. c # w \<in> A} B \<union> (if [] \<in> A then {w. c # w \<in> B} else {})"
proof (rule set_eqI)
  fix w
  show "w \<in> {w. c # w \<in> conc A B} \<longleftrightarrow>
        w \<in> conc {w. c # w \<in> A} B \<union> (if [] \<in> A then {w. c # w \<in> B} else {})"
  proof
    assume "w \<in> {w. c # w \<in> conc A B}"
    then obtain u v where uv: "c # w = u @ v" "u \<in> A" "v \<in> B"
      by (auto simp: conc_def)
    show "w \<in> conc {w. c # w \<in> A} B \<union> (if [] \<in> A then {w. c # w \<in> B} else {})"
    proof (cases u)
      case Nil
      with uv show ?thesis by auto
    next
      case (Cons x xs)
      with uv have "w = xs @ v" "c # xs \<in> A" by auto
      with uv(3) have "w \<in> conc {w. c # w \<in> A} B"
        unfolding conc_def by blast
      then show ?thesis by simp
    qed
  next
    assume r: "w \<in> conc {w. c # w \<in> A} B \<union> (if [] \<in> A then {w. c # w \<in> B} else {})"
    show "w \<in> {w. c # w \<in> conc A B}"
    proof (cases "w \<in> conc {w. c # w \<in> A} B")
      case True
      then obtain u v where "w = u @ v" "c # u \<in> A" "v \<in> B"
        by (auto simp: conc_def)
      then have "c # w = (c # u) @ v \<and> c # u \<in> A \<and> v \<in> B" by simp
      then have "c # w \<in> conc A B" unfolding conc_def by blast
      then show ?thesis by simp
    next
      case False
      with r have "[] \<in> A" "c # w \<in> B" by (auto split: if_splits)
      then have "c # w = [] @ (c # w) \<and> [] \<in> A \<and> c # w \<in> B" by simp
      then have "c # w \<in> conc A B" unfolding conc_def by blast
      then show ?thesis by simp
    qed
  qed
qed

lemma lang_deriv: "lang (deriv c r) = {w. c # w \<in> lang r}"
proof (induction c r rule: deriv.induct)
  case (4 c r s)
  then show ?case
    by (auto simp: lang_cat_s lang_or_s nullable_lang deriv_conc)
next
  case (8 c n r)
  then show ?case
    by (auto simp: lang_cat_s lang_or_s nullable_lang deriv_conc)
qed (auto simp: lang_or_s)

lemma matches_lang: "matches r w \<longleftrightarrow> w \<in> lang r"
  by (induction w arbitrary: r) (simp_all add: nullable_lang lang_deriv)

subsection \<open>The language of the pattern\<close>

lemma lang_AtMost_Sym: "lang (AtMost n (Sym c)) = {replicate k c | k. k \<le> n}"
proof (induction n)
  case 0
  then show ?case by simp
next
  case (Suc n)
  have "conc {[c]} {replicate k c | k. k \<le> n} = {replicate (Suc k) c | k. k \<le> n}"
    by (auto simp: conc_def)
  also have "insert [] \<dots> = {replicate k c | k. k \<le> Suc n}"
  proof (rule set_eqI)
    fix w
    show "w \<in> insert [] {replicate (Suc k) c | k. k \<le> n} \<longleftrightarrow>
          w \<in> {replicate k c | k. k \<le> Suc n}"
    proof
      assume "w \<in> insert [] {replicate (Suc k) c | k. k \<le> n}"
      then consider "w = replicate 0 c" | k where "k \<le> n" "w = replicate (Suc k) c"
        by auto
      then show "w \<in> {replicate k c | k. k \<le> Suc n}"
      proof cases
        case 1
        then have "w = replicate 0 c \<and> 0 \<le> Suc n" by simp
        then show ?thesis by blast
      next
        case 2
        then have "w = replicate (Suc k) c \<and> Suc k \<le> Suc n" by simp
        then show ?thesis by blast
      qed
    next
      assume "w \<in> {replicate k c | k. k \<le> Suc n}"
      then obtain k where k: "k \<le> Suc n" "w = replicate k c" by auto
      show "w \<in> insert [] {replicate (Suc k) c | k. k \<le> n}"
      proof (cases k)
        case 0
        with k show ?thesis by simp
      next
        case (Suc j)
        with k have "w = replicate (Suc j) c \<and> j \<le> n" by simp
        then show ?thesis by blast
      qed
    qed
  qed
  finally show ?case using Suc by simp
qed

lemma upto_9: "{d::nat. d \<le> 9} = {0, 1, 2, 3, 4, 5, 6, 7, 8, 9}"
  by auto

lemma upto_3: "{k::nat. k \<le> 3} = {0, 1, 2, 3}"
  by auto

lemma lang_three: "lang (AtMost 3 (Sym c)) = {[], [c], [c, c], [c, c, c]}"
proof -
  have "lang (AtMost 3 (Sym c)) = (\<lambda>k. replicate k c) ` {k. k \<le> 3}"
    unfolding lang_AtMost_Sym by auto
  also have "\<dots> = {[], [c], [c, c], [c, c, c]}"
    unfolding upto_3 by (simp add: numeral_3_eq_3 numeral_2_eq_2)
  finally show ?thesis .
qed

lemma conc_insert: "conc (insert a A) B = (\<lambda>v. a @ v) ` B \<union> conc A B"
  by (auto simp: conc_def)

lemma conc_image: "conc (f ` A) B = {f a @ v | a v. a \<in> A \<and> v \<in> B}"
  by (auto simp: conc_def)

lemma lang_digit_group:
  "lang (Or (Cat (Sym one) (Sym ten))
        (Or (Cat (Sym one) (Sym five))
            (Cat (Optional (Sym five)) (AtMost 3 (Sym one))))) =
   digit_numeral one five ten ` {d. d \<le> 9}"
proof -
  have "lang (Or (Cat (Sym one) (Sym ten))
        (Or (Cat (Sym one) (Sym five))
            (Cat (Optional (Sym five)) (AtMost 3 (Sym one))))) =
     {[one, ten], [one, five], [], [one], [one, one], [one, one, one],
      [five], [five, one], [five, one, one], [five, one, one, one]}"
    unfolding lang.simps(4,5,6) lang_three
    by (simp add: conc_insert insert_commute)
  also have "\<dots> = digit_numeral one five ten ` {d. d \<le> 9}"
    unfolding upto_9 by (simp add: digit_numeral_def insert_commute)
  finally show ?thesis .
qed

lemma lang_pattern:
  "w \<in> lang pattern \<longleftrightarrow>
     (\<exists>a b c d. a \<le> 3 \<and> b \<le> 9 \<and> c \<le> 9 \<and> d \<le> 9 \<and>
        w = replicate a CHR ''M'' @
            digit_numeral CHR ''C'' CHR ''D'' CHR ''M'' b @
            digit_numeral CHR ''X'' CHR ''L'' CHR ''C'' c @
            digit_numeral CHR ''I'' CHR ''V'' CHR ''X'' d)"
proof -
  have th: "lang (AtMost 3 (Sym CHR ''M'')) = (\<lambda>k. replicate k CHR ''M'') ` {k. k \<le> 3}"
    unfolding lang_AtMost_Sym by auto
  have "lang pattern =
      conc ((\<lambda>k. replicate k CHR ''M'') ` {k. k \<le> 3})
     (conc (digit_numeral CHR ''C'' CHR ''D'' CHR ''M'' ` {d. d \<le> 9})
     (conc (digit_numeral CHR ''X'' CHR ''L'' CHR ''C'' ` {d. d \<le> 9})
           (digit_numeral CHR ''I'' CHR ''V'' CHR ''X'' ` {d. d \<le> 9})))"
    unfolding pattern_def lang.simps(4)[of "AtMost 3 (Sym CHR ''M'')"]
      lang.simps(4)[of "Or (Cat (Sym CHR ''C'') (Sym CHR ''M'')) _"]
      lang.simps(4)[of "Or (Cat (Sym CHR ''X'') (Sym CHR ''C'')) _"]
      lang_digit_group th ..
  also have "\<dots> = {replicate a CHR ''M'' @
            digit_numeral CHR ''C'' CHR ''D'' CHR ''M'' b @
            digit_numeral CHR ''X'' CHR ''L'' CHR ''C'' c @
            digit_numeral CHR ''I'' CHR ''V'' CHR ''X'' d | a b c d.
            a \<le> 3 \<and> b \<le> 9 \<and> c \<le> 9 \<and> d \<le> 9}"
    unfolding conc_image by blast
  finally show ?thesis by blast
qed

lemma canonical_digits:
  assumes "a \<le> 3" "b \<le> 9" "c \<le> 9" "d \<le> 9"
  shows "canonical (1000 * a + 100 * b + 10 * c + d) =
     replicate a CHR ''M'' @
     digit_numeral CHR ''C'' CHR ''D'' CHR ''M'' b @
     digit_numeral CHR ''X'' CHR ''L'' CHR ''C'' c @
     digit_numeral CHR ''I'' CHR ''V'' CHR ''X'' d"
proof -
  let ?n = "1000 * a + 100 * b + 10 * c + d"
  have n1: "?n = 1000 * a + (100 * b + 10 * c + d)"
    and n2: "?n = 100 * (10 * a + b) + (10 * c + d)"
    and n3: "?n = 10 * (100 * a + 10 * b + c) + d"
    by simp_all
  from assms have r1: "100 * b + 10 * c + d < 1000" and r2: "10 * c + d < 100" and r3: "d < 10"
    by simp_all
  have d1: "?n div 1000 = a"
    unfolding n1 using r1 by simp
  have "?n div 100 = 10 * a + b"
    unfolding n2 using r2 by simp
  then have d2: "?n div 100 mod 10 = b"
    using assms(2) by simp
  have "?n div 10 = 10 * (10 * a + b) + c"
    unfolding n3 using r3 by simp
  moreover have "(10 * (10 * a + b) + c) mod 10 = c"
    using assms(3) by (simp only: mod_mult_self4 mod_less)
  ultimately have d3: "?n div 10 mod 10 = c"
    by (simp only:)
  have "(10 * (100 * a + 10 * b + c) + d) mod 10 = d"
    using r3 by (simp only: mod_mult_self4 mod_less)
  then have d4: "?n mod 10 = d"
    using n3 by (simp only:)
  show ?thesis
    unfolding canonical_def d1 d2 d3 d4 ..
qed

lemma lang_pattern_canonical: "w \<in> lang pattern \<longleftrightarrow> (\<exists>n\<le>3999. w = canonical n)"
proof
  assume "w \<in> lang pattern"
  then obtain a b c d where h: "a \<le> 3" "b \<le> 9" "c \<le> 9" "d \<le> 9"
    and w: "w = replicate a CHR ''M'' @
            digit_numeral CHR ''C'' CHR ''D'' CHR ''M'' b @
            digit_numeral CHR ''X'' CHR ''L'' CHR ''C'' c @
            digit_numeral CHR ''I'' CHR ''V'' CHR ''X'' d"
    unfolding lang_pattern by blast
  from h have "1000 * a + 100 * b + 10 * c + d \<le> 3999" by simp
  moreover from h w have "w = canonical (1000 * a + 100 * b + 10 * c + d)"
    by (simp add: canonical_digits)
  ultimately show "\<exists>n\<le>3999. w = canonical n" by blast
next
  assume "\<exists>n\<le>3999. w = canonical n"
  then obtain n where n: "n \<le> 3999" "w = canonical n" by blast
  from n(1) have "n < 4 * 1000" by simp
  then have "n div 1000 < 4" by (simp only: div_less_iff_less_mult zero_less_numeral)
  then have a: "n div 1000 \<le> 3" by simp
  have b: "n div 100 mod 10 \<le> 9" "n div 10 mod 10 \<le> 9" "n mod 10 \<le> 9"
    by simp_all
  from a b n(2) show "w \<in> lang pattern"
    unfolding lang_pattern canonical_def by blast
qed

lemma regex_roman_canonical: "regex_roman w \<longleftrightarrow> (\<exists>n\<le>3999. w = canonical n)"
  by (simp add: regex_roman_def matches_lang lang_pattern_canonical)

subsection \<open>The loop of the structural validator runs the automaton\<close>

lemma cannot_repeat_keeps:
  assumes "cannot_repeat v st = (b, st1)"
  shows "last_subtractive st1 = last_subtractive st"
    and "last_subtractive_value st1 = last_subtractive_value st"
    and "max_v st1 = max_v st"
    and "repeat st1 = repeat st"
  using assms by (auto simp: cannot_repeat_def split: if_splits)

lemma pair_checks_cont:
  "pair_checks deep pp p cur st1 cont =
     (case pair_checks deep pp p cur st1 Some of None \<Rightarrow> None | Some st3 \<Rightarrow> cont st3)"
  by (auto simp: pair_checks_def Let_def)

lemma validate_body_pair:
  assumes "i \<noteq> 0" "roman_value (roman ! i) \<noteq> 0"
    "cannot_repeat (roman_value (roman ! i)) st = (False, st1)"
  shows "validate_body roman i st =
     pair_checks (1 < i) (roman_value (roman ! (i - 2))) (roman_value (roman ! (i - 1)))
       (roman_value (roman ! i)) st1
       (\<lambda>st3. if last_subtractive st3 \<and> Suc i < length roman \<and>
                 roman_value (roman ! Suc i) > last_subtractive_value st3
              then None else Some st3)"
  unfolding validate_body_def pair_checks_def Let_def
  using assms by (simp only: if_False prod.case bool.case)

lemma vstep_pair:
  assumes "k \<noteq> 0" "roman_value c \<noteq> 0" "cannot_repeat (roman_value c) st = (False, st1)"
    "\<not> (last_subtractive st \<and> roman_value c > last_subtractive_value st)"
  shows "vstep (st, k, pp, p) c =
     pair_checks (1 < k) pp p (roman_value c) st1 (\<lambda>st3. Some (st3, 2, p, roman_value c))"
  unfolding vstep_def pair_checks_def Let_def
  using assms by (simp only: if_False prod.case bool.case)

lemma body_step1:
  assumes "i < length roman" "ahead_ok st roman i" "i = 0 \<longrightarrow> \<not> last_subtractive st"
  shows "validate_body roman i st =
     (case vstep (scan_at roman i st) (roman ! i) of
        None \<Rightarrow> None
      | Some s' \<Rightarrow> if ahead_ok (fst s') roman (Suc i) then Some (fst s') else None)"
proof -
  obtain b st1 where cr: "cannot_repeat (roman_value (roman ! i)) st = (b, st1)"
    by fastforce
  note keep = cannot_repeat_keeps[OF cr]
  from assms(1,2) have ahead: "\<not> (last_subtractive st \<and>
      last_subtractive_value st < roman_value (roman ! i))"
    by (simp add: ahead_ok_def)
  show ?thesis
  proof (cases "i = 0")
    case True
    with assms(3) ahead keep(1) cr show ?thesis
      by (simp add: validate_body_def vstep_def scan_at_def ahead_ok_def Let_def
          split: bool.splits)
  next
    case False
    then have k: "min i 2 \<noteq> 0" "(1 < min i 2) = (1 < i)" "2 \<le> i \<longleftrightarrow> 1 < i" "1 \<le> i"
      by auto
    show ?thesis
    proof (cases "b \<or> roman_value (roman ! i) = 0")
      case True
      with False ahead cr show ?thesis
        by (auto simp: validate_body_def vstep_def scan_at_def Let_def k)
    next
      case ok: False
      with cr have cr': "cannot_repeat (roman_value (roman ! i)) st = (False, st1)"
        and nz: "roman_value (roman ! i) \<noteq> 0"
        by simp_all
      have sc: "scan_at roman i st =
          (st, min i 2, (if 1 < i then roman_value (roman ! (i - 2)) else 0),
           roman_value (roman ! (i - 1)))"
        using False by (simp add: scan_at_def k)
      have deep: "pair_checks (1 < i) (if 1 < i then roman_value (roman ! (i - 2)) else 0) p c s f
          = pair_checks (1 < i) (roman_value (roman ! (i - 2))) p c s f" for p c s
          and f :: "vstate \<Rightarrow> 'a option"
        by (cases "1 < i") (auto simp: pair_checks_def Let_def)
      show ?thesis
        unfolding sc validate_body_pair[OF False nz cr'] vstep_pair[OF k(1) nz cr' ahead] k(2) deep
        by (subst pair_checks_cont, subst (2) pair_checks_cont)
           (simp add: ahead_ok_def split: option.splits)
    qed
  qed
qed

lemma body_step2:
  assumes "vstep (scan_at roman i st) (roman ! i) = Some s'"
  shows "s' = scan_at roman (Suc i) (fst s')"
proof -
  obtain b st1 where cr: "cannot_repeat (roman_value (roman ! i)) st = (b, st1)"
    by fastforce
  show ?thesis
  proof (cases "i = 0")
    case True
    with assms cr show ?thesis
      by (auto simp: vstep_def scan_at_def Let_def split: if_splits bool.splits)
  next
    case False
    then have k: "min i 2 \<noteq> 0" "min (Suc i) 2 = 2" "2 \<le> i \<longleftrightarrow> 1 < i" "1 \<le> i"
      by auto
    from False assms cr show ?thesis
      unfolding vstep_def scan_at_def Let_def
      by (auto simp: k split: if_splits bool.splits)
  qed
qed

lemma body_step3:
  assumes "vstep (scan_at roman 0 st) c = Some s'" "\<not> last_subtractive st"
  shows "\<not> last_subtractive (fst s')"
proof -
  obtain b st1 where cr: "cannot_repeat (roman_value c) st = (b, st1)"
    by fastforce
  from assms cr cannot_repeat_keeps(1)[OF cr] show ?thesis
    by (auto simp: vstep_def scan_at_def Let_def split: if_splits bool.splits)
qed

lemma vrun_None [simp]: "vrun None w = None"
  by (cases w) simp_all

lemma validate_loop_vrun:
  assumes "i \<le> length roman" "ahead_ok st roman i" "i = 0 \<longrightarrow> \<not> last_subtractive st"
  shows "validate_loop roman i st \<longleftrightarrow> vrun (Some (scan_at roman i st)) (drop i roman) \<noteq> None"
  using assms
proof (induction roman i st rule: validate_loop.induct)
  case (1 roman i st)
  show ?case
  proof (cases "i < length roman")
    case False
    with "1.prems" show ?thesis
      by (subst validate_loop.simps) simp
  next
    case True
    then have dr: "drop i roman = roman ! i # drop (Suc i) roman"
      by (simp add: Cons_nth_drop_Suc)
    have i0: "i = 0 \<longrightarrow> \<not> last_subtractive st"
      using "1.prems" by simp
    note bs = body_step1[OF True "1.prems"(2) i0]
    show ?thesis
    proof (cases "vstep (scan_at roman i st) (roman ! i)")
      case None
      with bs True show ?thesis
        by (subst validate_loop.simps) (simp add: dr)
    next
      case (Some s')
      note sc = body_step2[OF Some]
      show ?thesis
      proof (cases "ahead_ok (fst s') roman (Suc i)")
        case ok: True
        with bs Some have vb: "validate_body roman i st = Some (fst s')"
          by simp
        have "validate_loop roman (Suc i) (fst s') \<longleftrightarrow>
            vrun (Some (scan_at roman (Suc i) (fst s'))) (drop (Suc i) roman) \<noteq> None"
          using True ok by (intro "1.IH"[OF True vb]) simp_all
        with vb True Some sc show ?thesis
          by (subst validate_loop.simps) (simp add: dr)
      next
        case bad: False
        with bs Some have vb: "validate_body roman i st = None"
          by simp
        from bad have si: "Suc i < length roman" and ls: "last_subtractive (fst s')"
          and gt: "roman_value (roman ! Suc i) > last_subtractive_value (fst s')"
          by (simp_all add: ahead_ok_def)
        from si have dr': "drop (Suc i) roman = roman ! Suc i # drop (Suc (Suc i)) roman"
          by (simp add: Cons_nth_drop_Suc)
        obtain st' k pp p where s': "s' = (st', k, pp, p)"
          by (cases s')
        with ls gt have "vstep s' (roman ! Suc i) = None"
          by (simp add: vstep_def)
        with vb True Some show ?thesis
          by (subst validate_loop.simps) (simp add: dr dr')
      qed
    qed
  qed
qed

lemma validate_roman_vrun: "validate_roman w \<longleftrightarrow> vrun (Some init_scan) w \<noteq> None"
proof -
  have "scan_at w 0 init_vstate = init_scan"
    by (simp add: scan_at_def init_scan_def)
  moreover have "ahead_ok init_vstate w 0" "\<not> last_subtractive init_vstate"
    by (simp_all add: ahead_ok_def init_vstate_def)
  ultimately show ?thesis
    using validate_loop_vrun[of 0 w init_vstate] by (simp add: validate_roman_def)
qed

lemma matches_dead: "matches NoMatch w = False"
  by (induction w) simp_all

lemma vstep_alphabet: "vstep s c \<noteq> None \<Longrightarrow> c \<in> set alphabet"
  by (cases s) (auto simp: vstep_def roman_value_def alphabet_def Let_def split: if_splits)

lemma cat_s_symbols: "symbols_of (cat_s r s) \<subseteq> symbols_of r \<union> symbols_of s"
  by (induction r s rule: cat_s.induct) auto

lemma or_s_symbols: "symbols_of (or_s r s) \<subseteq> symbols_of r \<union> symbols_of s"
  by (induction r s rule: or_s.induct) auto

lemma deriv_symbols: "symbols_of (deriv c r) \<subseteq> symbols_of r"
proof (induction c r rule: deriv.induct)
  case (4 c r s)
  note cs = cat_s_symbols[of "deriv c r" s]
    and os = or_s_symbols[of "cat_s (deriv c r) s" "deriv c s"]
  show ?case
  proof (cases "nullable r")
    case True
    with "4.IH" cs os show ?thesis
      by (simp del: cat_s.simps or_s.simps) blast
  next
    case False
    with "4.IH" cs show ?thesis
      by (simp del: cat_s.simps or_s.simps) blast
  qed
next
  case (5 c r s)
  then show ?case
    using or_s_symbols[of "deriv c r" "deriv c s"] by (simp del: or_s.simps) blast
next
  case (8 c n r)
  note cs = cat_s_symbols[of "deriv c r" "AtMost n r"]
    and os = or_s_symbols[of "cat_s (deriv c r) (AtMost n r)" "deriv c (AtMost n r)"]
  show ?case
  proof (cases "nullable r")
    case True
    with "8.IH" cs os show ?thesis
      by (simp del: cat_s.simps or_s.simps) blast
  next
    case False
    with "8.IH" cs show ?thesis
      by (simp del: cat_s.simps or_s.simps) blast
  qed
qed auto

lemma deriv_foreign: "c \<notin> symbols_of r \<Longrightarrow> deriv c r = NoMatch"
  by (induction c r rule: deriv.induct) auto

lemma agree_sound:
  "agree n s r \<Longrightarrow> symbols_of r \<subseteq> set alphabet \<Longrightarrow>
     (vrun (Some s) w \<noteq> None \<longleftrightarrow> matches r w) \<and> (matches r w \<longrightarrow> length w < n)"
  and agree_list_sound:
  "agree_list n s r cs \<Longrightarrow> symbols_of r \<subseteq> set alphabet \<Longrightarrow> x \<in> set cs \<Longrightarrow>
     (vrun (vstep s x) w \<noteq> None \<longleftrightarrow> matches (deriv x r) w) \<and>
     (matches (deriv x r) w \<longrightarrow> length w < n)"
proof (induction n s r and n s r cs arbitrary: w and w x rule: agree_agree_list.induct)
  case (1 s r)
  then show ?case by simp
next
  case (2 n s r w)
  from "2.prems" have nu: "nullable r" and al: "agree_list n s r alphabet"
    by (simp_all split: if_splits)
  show ?case
  proof (cases w)
    case Nil
    with nu show ?thesis by simp
  next
    case (Cons c cs)
    show ?thesis
    proof (cases "c \<in> set alphabet")
      case True
      from "2.IH"[OF nu al "2.prems"(2) True, of cs] Cons show ?thesis
        by simp
    next
      case False
      with vstep_alphabet[of s c] have "vstep s c = None" by blast
      moreover from False "2.prems"(2) have "deriv c r = NoMatch"
        by (intro deriv_foreign) auto
      ultimately show ?thesis
        using Cons by (simp add: matches_dead)
    qed
  qed
next
  case (3 n s r)
  then show ?case by simp
next
  case (4 n s r c cs w x)
  show ?case
  proof (cases "vstep s c")
    case None
    with "4.prems"(1) have d: "deriv c r = NoMatch" and rest: "agree_list n s r cs"
      by (simp_all split: if_splits)
    show ?thesis
    proof (cases "x = c")
      case True
      with None d show ?thesis by (simp add: matches_dead)
    next
      case False
      with "4.prems"(3) have "x \<in> set cs" by simp
      from "4.IH"(1)[OF None d rest "4.prems"(2) this] show ?thesis .
    qed
  next
    case (Some s')
    with "4.prems"(1) have a: "agree n s' (deriv c r)" and rest: "agree_list n s r cs"
      by (simp_all split: if_splits)
    have sub: "symbols_of (deriv c r) \<subseteq> set alphabet"
      using deriv_symbols[of c r] "4.prems"(2) by blast
    show ?thesis
    proof (cases "x = c")
      case True
      with "4.IH"(2)[OF Some a sub, of w] Some show ?thesis by simp
    next
      case False
      with "4.prems"(3) have "x \<in> set cs" by simp
      from "4.IH"(3)[OF Some a rest "4.prems"(2) this] show ?thesis .
    qed
  qed
qed

subsection \<open>The evaluator on canonical numerals\<close>

lemma roman_value_nonneg: "0 \<le> roman_value c"
  by (simp add: roman_value_def)

lemma roman_value_le: "roman_value c \<le> 1000"
  by (simp add: roman_value_def)

lemma roman_converter_loop_eval:
  "i \<le> length roman \<Longrightarrow>
     roman_converter_loop roman i total_v = total_v + eval_from (drop i roman)"
proof (induction roman i total_v rule: roman_converter_loop.induct)
  case (1 roman i total_v)
  show ?case
  proof (cases "i < length roman")
    case False
    with "1.prems" show ?thesis
      by (subst roman_converter_loop.simps) simp
  next
    case True
    then have dr: "drop i roman = roman ! i # drop (Suc i) roman"
      by (simp add: Cons_nth_drop_Suc)
    show ?thesis
    proof (cases "Suc i < length roman")
      case last: False
      with True have e: "drop (Suc i) roman = []" by simp
      from True last have nx: "(if Suc i < length roman then roman_value (roman ! Suc i) else 0) = 0"
        by simp
      have "\<not> roman_value (roman ! i) < 0"
        using roman_value_nonneg[of "roman ! i"] by simp
      with "1.IH"(2)[OF True refl nx[symmetric]] True e nx show ?thesis
        by (subst roman_converter_loop.simps) (simp add: dr Let_def)
    next
      case more: True
      then have dr': "drop (Suc i) roman = roman ! Suc i # drop (Suc (Suc i)) roman"
        by (simp add: Cons_nth_drop_Suc)
      from more have nx: "(if Suc i < length roman then roman_value (roman ! Suc i) else 0) =
          roman_value (roman ! Suc i)"
        by simp
      show ?thesis
      proof (cases "roman_value (roman ! i) < roman_value (roman ! Suc i)")
        case lt: True
        with "1.IH"(1)[OF True refl nx[symmetric]] True more show ?thesis
          by (subst roman_converter_loop.simps) (simp add: dr dr' Let_def)
      next
        case ge: False
        with "1.IH"(2)[OF True refl nx[symmetric]] True more show ?thesis
          by (subst roman_converter_loop.simps) (simp add: dr dr' Let_def)
      qed
    qed
  qed
qed

lemma roman_converter_eval: "roman_converter w = eval_from w"
  by (simp add: roman_converter_def roman_converter_loop_eval)

lemma eval_from_append:
  assumes "\<forall>x\<in>set u. \<forall>y\<in>set v. roman_value y \<le> roman_value x"
  shows "eval_from (u @ v) = eval_from u + eval_from v"
  using assms
proof (induction u rule: eval_from.induct)
  case 1
  then show ?case by simp
next
  case (2 c)
  then show ?case
    by (cases v) (simp_all add: roman_value_nonneg)
next
  case (3 c d cs)
  then show ?case by simp
qed

lemma eval_from_replicate_M: "eval_from (replicate k CHR ''M'') = 1000 * int k"
proof (induction k)
  case 0
  then show ?case by simp
next
  case (Suc k)
  then show ?case
    by (cases k) (simp_all add: roman_value_def)
qed

lemma eval_from_digit:
  assumes "d \<le> 9" "roman_value five = 5 * roman_value one"
    "roman_value ten = 10 * roman_value one" "0 < roman_value one"
  shows "eval_from (digit_numeral one five ten d) = int d * roman_value one"
proof -
  from assms(1) have "d \<in> {0, 1, 2, 3, 4, 5, 6, 7, 8, 9}"
    by auto
  with assms(2-4) show ?thesis
    by (auto simp: digit_numeral_def)
qed

lemma digit_in: "x \<in> set (digit_numeral one five ten d) \<Longrightarrow> x = one \<or> x = five \<or> x = ten"
  by (auto simp: digit_numeral_def split: if_splits)

lemma eval_from_canonical:
  assumes "n \<le> 3999"
  shows "eval_from (canonical n) = int n"
proof -
  let ?th = "replicate (n div 1000) CHR ''M''"
  let ?hu = "digit_numeral CHR ''C'' CHR ''D'' CHR ''M'' (n div 100 mod 10)"
  let ?te = "digit_numeral CHR ''X'' CHR ''L'' CHR ''C'' (n div 10 mod 10)"
  let ?on = "digit_numeral CHR ''I'' CHR ''V'' CHR ''X'' (n mod 10)"
  have s1: "\<forall>x\<in>set ?te. \<forall>y\<in>set ?on. roman_value y \<le> roman_value x"
    by (auto dest!: digit_in simp: roman_value_def)
  have s2: "\<forall>x\<in>set ?hu. \<forall>y\<in>set (?te @ ?on). roman_value y \<le> roman_value x"
    by (auto dest!: digit_in simp: roman_value_def)
  have s3: "\<forall>x\<in>set ?th. \<forall>y\<in>set (?hu @ ?te @ ?on). roman_value y \<le> roman_value x"
    by (auto dest!: digit_in simp: roman_value_def)
  have dg: "n div 100 mod 10 \<le> 9" "n div 10 mod 10 \<le> 9" "n mod 10 \<le> 9"
    by simp_all
  have "eval_from (canonical n) =
      1000 * int (n div 1000) + (int (n div 100 mod 10) * 100 +
        (int (n div 10 mod 10) * 10 + int (n mod 10)))"
    unfolding canonical_def
    by (simp only: eval_from_append[OF s3] eval_from_append[OF s2] eval_from_append[OF s1]
        eval_from_replicate_M)
       (simp add: eval_from_digit[OF dg(1)] eval_from_digit[OF dg(2)] eval_from_digit[OF dg(3)]
        roman_value_def)
  also have "\<dots> = int (1000 * (n div 1000) + (100 * (n div 100 mod 10) +
        (10 * (n div 10 mod 10) + n mod 10)))"
    by simp
  also have "1000 * (n div 1000) + (100 * (n div 100 mod 10) +
        (10 * (n div 10 mod 10) + n mod 10)) = n"
  proof -
    have a: "n = 10 * (n div 10) + n mod 10" by simp
    have b: "n div 10 = 10 * (n div 10 div 10) + n div 10 mod 10" by simp
    have c: "n div 100 = 10 * (n div 100 div 10) + n div 100 mod 10" by simp
    have d: "n div 10 div 10 = n div 100" "n div 100 div 10 = n div 1000"
      by (simp_all add: div_mult2_eq[symmetric])
    from a b c d show ?thesis by linarith
  qed
  finally show ?thesis .
qed

subsection \<open>The converter builds the canonical numeral\<close>

lemma values_tab_pos: "i < length values_tab \<Longrightarrow> 0 < values_tab ! i"
proof -
  assume "i < length values_tab"
  then have "values_tab ! i \<in> set values_tab" by simp
  then show ?thesis by (auto simp: values_tab_def)
qed

lemma while_copies:
  assumes "i < length values_tab" "int k * values_tab ! i \<le> num"
    "num < (int k + 1) * values_tab ! i"
    "length roman + k * length (symbols ! i) + 1 \<le> MAX_ROMAN_LENGTH"
  shows "int_converter_while i num roman =
     Some (num - int k * values_tab ! i, roman @ concat (replicate k (symbols ! i)))"
  using assms
proof (induction k arbitrary: num roman)
  case 0
  then show ?case
    by (subst int_converter_while.simps) simp
next
  case (Suc k)
  let ?v = "values_tab ! i"
  from Suc.prems(1) have pos: "0 < ?v" by (rule values_tab_pos)
  from Suc.prems(2) pos have ge: "?v \<le> num"
    by (simp add: distrib_right) (smt (verit) mult_nonneg_nonneg of_nat_0_le_iff)
  from Suc.prems(4) have fit: "length roman + length (symbols ! i) + 1 \<le> MAX_ROMAN_LENGTH"
    by simp
  have "int_converter_while i (num - ?v) (roman @ symbols ! i) =
      Some (num - ?v - int k * ?v, (roman @ symbols ! i) @ concat (replicate k (symbols ! i)))"
    using Suc.prems by (intro Suc.IH) (simp_all add: distrib_right)
  with ge fit Suc.prems(1) show ?case
    by (subst int_converter_while.simps) (simp add: strcat_def distrib_right)
qed

lemma for_step:
  assumes "i < length values_tab"
  shows "int_converter_for i num roman =
     (case int_converter_while i num roman of
        None \<Rightarrow> None
      | Some (num', roman') \<Rightarrow> int_converter_for (Suc i) num' roman')"
proof (cases "0 < num")
  case True
  with assms show ?thesis
    by (subst int_converter_for.simps) simp
next
  case False
  with values_tab_pos[OF assms] have "int_converter_while i num roman = Some (num, roman)"
    by (subst int_converter_while.simps) simp
  moreover from False have "int_converter_for i num roman = Some roman"
    "int_converter_for (Suc i) num roman = Some roman"
    by (subst int_converter_for.simps, simp)+
  ultimately show ?thesis by simp
qed

lemma for_done: "length values_tab \<le> i \<Longrightarrow> int_converter_for i num roman = Some roman"
  by (subst int_converter_for.simps) simp

lemma for_copies:
  assumes "i < length values_tab" "int k * values_tab ! i \<le> num"
    "num < (int k + 1) * values_tab ! i"
    "length roman + k * length (symbols ! i) + 1 \<le> MAX_ROMAN_LENGTH"
  shows "int_converter_for i num roman =
     int_converter_for (Suc i) (num - int k * values_tab ! i)
       (roman @ concat (replicate k (symbols ! i)))"
  by (simp add: for_step[OF assms(1)] while_copies[OF assms])

lemma digit_group:
  assumes "j + 3 < length values_tab"
    and "values_tab ! j = 9 * u" "values_tab ! Suc j = 5 * u"
      "values_tab ! Suc (Suc j) = 4 * u" "values_tab ! Suc (Suc (Suc j)) = u"
    and "symbols ! j = [one, ten]" "symbols ! Suc j = [five]"
      "symbols ! Suc (Suc j) = [one, five]" "symbols ! Suc (Suc (Suc j)) = [one]"
    and "0 \<le> r" "r < u" "d \<le> 9" "length roman \<le> 15"
  shows "int_converter_for j (int d * u + r) roman =
     int_converter_for (Suc (Suc (Suc (Suc j)))) r (roman @ digit_numeral one five ten d)"
proof -
  from \<open>d \<le> 9\<close> have "d \<in> {0, 1, 2, 3, 4, 5, 6, 7, 8, 9}"
    by auto
  then consider "d = 0" | "d = 1" | "d = 2" | "d = 3" | "d = 4" | "d = 5" | "d = 6" | "d = 7" | "d = 8" | "d = 9"
    by auto
  then show ?thesis
  proof cases
  case 1
  with assms show ?thesis
    by (simp add: for_copies[of j 0] for_copies[of "Suc j" 0]
        for_copies[of "Suc (Suc j)" 0] for_copies[of "Suc (Suc (Suc j))" 0]
        digit_numeral_def MAX_ROMAN_LENGTH_def numeral_2_eq_2 numeral_3_eq_3)
next
  case 2
  with assms show ?thesis
    by (simp add: for_copies[of j 0] for_copies[of "Suc j" 0]
        for_copies[of "Suc (Suc j)" 0] for_copies[of "Suc (Suc (Suc j))" 1]
        digit_numeral_def MAX_ROMAN_LENGTH_def numeral_2_eq_2 numeral_3_eq_3)
next
  case 3
  with assms show ?thesis
    by (simp add: for_copies[of j 0] for_copies[of "Suc j" 0]
        for_copies[of "Suc (Suc j)" 0] for_copies[of "Suc (Suc (Suc j))" 2]
        digit_numeral_def MAX_ROMAN_LENGTH_def numeral_2_eq_2 numeral_3_eq_3)
next
  case 4
  with assms show ?thesis
    by (simp add: for_copies[of j 0] for_copies[of "Suc j" 0]
        for_copies[of "Suc (Suc j)" 0] for_copies[of "Suc (Suc (Suc j))" 3]
        digit_numeral_def MAX_ROMAN_LENGTH_def numeral_2_eq_2 numeral_3_eq_3)
next
  case 5
  with assms show ?thesis
    by (simp add: for_copies[of j 0] for_copies[of "Suc j" 0]
        for_copies[of "Suc (Suc j)" 1] for_copies[of "Suc (Suc (Suc j))" 0]
        digit_numeral_def MAX_ROMAN_LENGTH_def numeral_2_eq_2 numeral_3_eq_3)
next
  case 6
  with assms show ?thesis
    by (simp add: for_copies[of j 0] for_copies[of "Suc j" 1]
        for_copies[of "Suc (Suc j)" 0] for_copies[of "Suc (Suc (Suc j))" 0]
        digit_numeral_def MAX_ROMAN_LENGTH_def numeral_2_eq_2 numeral_3_eq_3)
next
  case 7
  with assms show ?thesis
    by (simp add: for_copies[of j 0] for_copies[of "Suc j" 1]
        for_copies[of "Suc (Suc j)" 0] for_copies[of "Suc (Suc (Suc j))" 1]
        digit_numeral_def MAX_ROMAN_LENGTH_def numeral_2_eq_2 numeral_3_eq_3)
next
  case 8
  with assms show ?thesis
    by (simp add: for_copies[of j 0] for_copies[of "Suc j" 1]
        for_copies[of "Suc (Suc j)" 0] for_copies[of "Suc (Suc (Suc j))" 2]
        digit_numeral_def MAX_ROMAN_LENGTH_def numeral_2_eq_2 numeral_3_eq_3)
next
  case 9
  with assms show ?thesis
    by (simp add: for_copies[of j 0] for_copies[of "Suc j" 1]
        for_copies[of "Suc (Suc j)" 0] for_copies[of "Suc (Suc (Suc j))" 3]
        digit_numeral_def MAX_ROMAN_LENGTH_def numeral_2_eq_2 numeral_3_eq_3)
next
  case 10
  with assms show ?thesis
    by (simp add: for_copies[of j 1] for_copies[of "Suc j" 0]
        for_copies[of "Suc (Suc j)" 0] for_copies[of "Suc (Suc (Suc j))" 0]
        digit_numeral_def MAX_ROMAN_LENGTH_def numeral_2_eq_2 numeral_3_eq_3)
  qed
qed

lemma int_converter_canonical:
  assumes "0 \<le> n" "n \<le> 3999"
  shows "int_converter n = Some (canonical (nat n))"
proof -
  define m where "m = nat n"
  define a b c d where "a = m div 1000" and "b = m div 100 mod 10"
    and "c = m div 10 mod 10" and "d = m mod 10"
  from assms have m: "n = int m" "m \<le> 3999"
    by (simp_all add: m_def)
  have dg: "b \<le> 9" "c \<le> 9" "d \<le> 9"
    by (simp_all add: b_def c_def d_def)
  from m(2) have "m < 4 * 1000" by simp
  then have "a < 4" unfolding a_def by (simp only: div_less_iff_less_mult zero_less_numeral)
  then have a3: "a \<le> 3" by simp
  have split: "m = 1000 * a + (100 * b + (10 * c + d))"
  proof -
    have e: "m = 10 * (m div 10) + m mod 10" by simp
    have f: "m div 10 = 10 * (m div 10 div 10) + m div 10 mod 10" by simp
    have g: "m div 100 = 10 * (m div 100 div 10) + m div 100 mod 10" by simp
    have h: "m div 10 div 10 = m div 100" "m div 100 div 10 = m div 1000"
      by (simp_all add: div_mult2_eq[symmetric])
    from e f g h show ?thesis unfolding a_def b_def c_def d_def by linarith
  qed
  have n: "n = int a * 1000 + (int b * 100 + (int c * 10 + int d))"
    unfolding m(1) by (subst split) simp
  have th: "int_converter_for 0 n [] =
      int_converter_for 1 (int b * 100 + (int c * 10 + int d)) (replicate a CHR ''M'')"
  proof -
    have cc: "concat (replicate a ''M'') = replicate a CHR ''M''"
      by (induction a) simp_all
    have "int_converter_for 0 n [] = int_converter_for (Suc 0) (n - int a * values_tab ! 0)
        ([] @ concat (replicate a (symbols ! 0)))"
      using a3 dg by (intro for_copies)
        (simp_all add: n values_tab_def symbols_def MAX_ROMAN_LENGTH_def)
    then show ?thesis
      by (simp add: n values_tab_def symbols_def cc)
  qed
  have hu: "int_converter_for 1 (int b * 100 + (int c * 10 + int d)) (replicate a CHR ''M'') =
      int_converter_for 5 (int c * 10 + int d)
        (replicate a CHR ''M'' @ digit_numeral CHR ''C'' CHR ''D'' CHR ''M'' b)"
    using digit_group[of 1 100 "CHR ''C''" "CHR ''M''" "CHR ''D''" "int c * 10 + int d" b
        "replicate a CHR ''M''"] a3 dg
    by (simp add: values_tab_def symbols_def eval_nat_numeral)
  have len: "length (digit_numeral x y z k) \<le> 4" for x y z :: char and k
    by (simp add: digit_numeral_def)
  have te: "int_converter_for 5 (int c * 10 + int d)
        (replicate a CHR ''M'' @ digit_numeral CHR ''C'' CHR ''D'' CHR ''M'' b) =
      int_converter_for 9 (int d)
        ((replicate a CHR ''M'' @ digit_numeral CHR ''C'' CHR ''D'' CHR ''M'' b) @
          digit_numeral CHR ''X'' CHR ''L'' CHR ''C'' c)"
    using digit_group[of 5 10 "CHR ''X''" "CHR ''C''" "CHR ''L''" "int d" c
        "replicate a CHR ''M'' @ digit_numeral CHR ''C'' CHR ''D'' CHR ''M'' b"] a3 dg
      len[of "CHR ''C''" "CHR ''D''" "CHR ''M''" b]
    by (simp add: values_tab_def symbols_def eval_nat_numeral)
  have on: "int_converter_for 9 (int d)
        ((replicate a CHR ''M'' @ digit_numeral CHR ''C'' CHR ''D'' CHR ''M'' b) @
          digit_numeral CHR ''X'' CHR ''L'' CHR ''C'' c) =
      int_converter_for 13 0
        (((replicate a CHR ''M'' @ digit_numeral CHR ''C'' CHR ''D'' CHR ''M'' b) @
          digit_numeral CHR ''X'' CHR ''L'' CHR ''C'' c) @
          digit_numeral CHR ''I'' CHR ''V'' CHR ''X'' d)"
    using digit_group[of 9 1 "CHR ''I''" "CHR ''X''" "CHR ''V''" 0 d
        "(replicate a CHR ''M'' @ digit_numeral CHR ''C'' CHR ''D'' CHR ''M'' b) @
          digit_numeral CHR ''X'' CHR ''L'' CHR ''C'' c"] a3 dg
      len[of "CHR ''C''" "CHR ''D''" "CHR ''M''" b] len[of "CHR ''X''" "CHR ''L''" "CHR ''C''" c]
    by (simp add: values_tab_def symbols_def eval_nat_numeral)
  have "int_converter n = Some (((replicate a CHR ''M'' @
          digit_numeral CHR ''C'' CHR ''D'' CHR ''M'' b) @
          digit_numeral CHR ''X'' CHR ''L'' CHR ''C'' c) @
          digit_numeral CHR ''I'' CHR ''V'' CHR ''X'' d)"
    unfolding int_converter_def th hu te on
    by (rule for_done) (simp add: values_tab_def)
  then show ?thesis
    by (simp add: canonical_def m_def a_def b_def c_def d_def)
qed

subsection \<open>Both validators accept exactly the canonical numerals\<close>

text \<open>
  The walk from the initial state succeeds within depth 16: the kernel evaluates it.
\<close>

lemma agree_init: "agree 16 init_scan pattern"
  by code_simp

lemma symbols_of_pattern: "symbols_of pattern \<subseteq> set alphabet"
  by (simp add: pattern_def alphabet_def)

lemma validate_roman_regex_roman: "validate_roman w = regex_roman w"
  using agree_sound[OF agree_init symbols_of_pattern, of w]
  by (simp add: validate_roman_vrun regex_roman_def)

lemma validate_roman_canonical: "validate_roman w \<longleftrightarrow> (\<exists>n\<le>3999. w = canonical n)"
  by (simp add: validate_roman_regex_roman regex_roman_canonical)

lemma roman_converter_canonical: "n \<le> 3999 \<Longrightarrow> roman_converter (canonical n) = int n"
  by (simp add: roman_converter_eval eval_from_canonical)

lemma canonical_inj:
  assumes "n \<le> 3999" "m \<le> 3999" "canonical n = canonical m"
  shows "n = m"
proof -
  from assms(3) have "eval_from (canonical n) = eval_from (canonical m)"
    by (rule arg_cong)
  with assms(1,2) show ?thesis
    by (simp only: eval_from_canonical of_nat_eq_iff)
qed

lemma canonical_0: "canonical 0 = []"
  by (simp add: canonical_def digit_numeral_def)

lemma canonical_empty:
  assumes "n \<le> 3999"
  shows "canonical n = [] \<longleftrightarrow> n = 0"
proof
  assume "canonical n = []"
  then have "eval_from (canonical n) = 0" by simp
  with assms show "n = 0" by (simp only: eval_from_canonical of_nat_eq_0_iff)
next
  assume "n = 0"
  then show "canonical n = []" by (simp only: canonical_0)
qed

lemma length_digit: "length (digit_numeral one five ten d) \<le> 4"
  by (simp add: digit_numeral_def)

lemma length_canonical:
  assumes "n \<le> 3999"
  shows "length (canonical n) \<le> 15"
proof -
  from assms have "n < 4 * 1000" by simp
  then have "n div 1000 < 4" by (simp only: div_less_iff_less_mult zero_less_numeral)
  with length_digit[of "CHR ''C''" "CHR ''D''" "CHR ''M''" "n div 100 mod 10"]
    length_digit[of "CHR ''X''" "CHR ''L''" "CHR ''C''" "n div 10 mod 10"]
    length_digit[of "CHR ''I''" "CHR ''V''" "CHR ''X''" "n mod 10"]
  show ?thesis
    by (simp add: canonical_def)
qed

lemma validate_roman_int_converter:
  "validate_roman w \<and> w \<noteq> [] \<longleftrightarrow> (\<exists>n. 1 \<le> n \<and> n \<le> 3999 \<and> int_converter n = Some w)"
proof
  assume "validate_roman w \<and> w \<noteq> []"
  then obtain n where n: "n \<le> 3999" "w = canonical n" "w \<noteq> []"
    by (auto simp: validate_roman_canonical)
  then have "n \<noteq> 0" using canonical_empty[of n] by auto
  with n have "1 \<le> int n \<and> int n \<le> 3999 \<and> int_converter (int n) = Some w"
    by (simp add: int_converter_canonical)
  then show "\<exists>n. 1 \<le> n \<and> n \<le> 3999 \<and> int_converter n = Some w" by blast
next
  assume "\<exists>n. 1 \<le> n \<and> n \<le> 3999 \<and> int_converter n = Some w"
  then obtain n where n: "1 \<le> n" "n \<le> 3999" "int_converter n = Some w" by blast
  then have w: "w = canonical (nat n)" "nat n \<le> 3999" "nat n \<noteq> 0"
    by (simp_all add: int_converter_canonical)
  then show "validate_roman w \<and> w \<noteq> []"
    using canonical_empty[of "nat n"] by (auto simp: validate_roman_canonical)
qed

lemma count_digit_other:
  "x \<noteq> one \<Longrightarrow> x \<noteq> five \<Longrightarrow> x \<noteq> ten \<Longrightarrow> count_list (digit_numeral one five ten d) x = 0"
  by (simp add: digit_numeral_def)

lemma count_digit_five:
  "five \<noteq> one \<Longrightarrow> five \<noteq> ten \<Longrightarrow> count_list (digit_numeral one five ten d) five \<le> 1"
  by (simp add: digit_numeral_def)

lemma count_replicate_other: "x \<noteq> y \<Longrightarrow> count_list (replicate k y) x = 0"
  by (induction k) simp_all

lemma count_canonical:
  "count_list (canonical n) CHR ''V'' \<le> 1"
  "count_list (canonical n) CHR ''L'' \<le> 1"
  "count_list (canonical n) CHR ''D'' \<le> 1"
  using count_digit_five[of "CHR ''V''" "CHR ''I''" "CHR ''X''" "n mod 10"]
    count_digit_five[of "CHR ''L''" "CHR ''X''" "CHR ''C''" "n div 10 mod 10"]
    count_digit_five[of "CHR ''D''" "CHR ''C''" "CHR ''M''" "n div 100 mod 10"]
  by (simp_all add: canonical_def count_digit_other count_replicate_other)

lemma eval_from_bound: "\<bar>eval_from w\<bar> \<le> 1000 * int (length w)"
proof (induction w rule: eval_from.induct)
  case 1
  then show ?case by simp
next
  case (2 c)
  then show ?case
    using roman_value_nonneg[of c] roman_value_le[of c] by simp
next
  case (3 c d cs)
  then show ?case
    using roman_value_nonneg[of c] roman_value_le[of c] by auto
qed

lemma roman_converter_loop_bound:
  "i \<le> length roman \<Longrightarrow>
     \<bar>roman_converter_loop roman i total_v - total_v\<bar> \<le> 1000 * int (length roman - i)"
  using eval_from_bound[of "drop i roman"] by (simp add: roman_converter_loop_eval)

lemma validate_input_empty: "fst (validate_input [CHR 0x0A]) = EXIT_EMPTY_ERR"
  by (simp add: validate_input_def input_overflow_check_def)

subsection \<open>The claims\<close>

text \<open>
  C1 (as stated, refuted): the empty string is accepted by \<open>validate_roman\<close>, and no integer
  in [1,3999] is converted to it.
\<close>

theorem C1_empty_counterexample:
  "validate_roman [] \<and> set [] \<subseteq> set alphabet \<and>
   \<not> (\<exists>n. 1 \<le> n \<and> n \<le> 3999 \<and> int_converter n = Some [])"
proof -
  have "validate_roman []"
    by (simp add: validate_roman_vrun)
  moreover have "\<not> (\<exists>n. 1 \<le> n \<and> n \<le> 3999 \<and> int_converter n = Some [])"
    using validate_roman_int_converter[of "[]"] by simp
  ultimately show ?thesis by simp
qed

text \<open>
  C1 (amended): for every non-empty string \<open>s\<close> over I, V, X, L, C, D, M,
  \<open>validate_roman s\<close> holds if and only if \<open>s\<close> is \<open>int_converter n\<close> for some \<open>n\<close> in
  [1,3999]; every other non-empty string is rejected.
\<close>

theorem C1_validate_roman_iff_converted:
  assumes "s \<noteq> []" "set s \<subseteq> set alphabet"
  shows "validate_roman s \<longleftrightarrow> (\<exists>n. 1 \<le> n \<and> n \<le> 3999 \<and> int_converter n = Some s)"
  using validate_roman_int_converter[of s] assms(1) by simp

theorem C1_validate_roman_iff_converted_witness:
  "''MCMXCIV'' \<noteq> [] \<and> set ''MCMXCIV'' \<subseteq> set alphabet \<and> validate_roman ''MCMXCIV'' \<and>
   (\<exists>n. 1 \<le> n \<and> n \<le> 3999 \<and> int_converter n = Some ''MCMXCIV'')"
proof -
  have h1: "''MCMXCIV'' \<noteq> []" by simp
  have h2: "set ''MCMXCIV'' \<subseteq> set alphabet" by (simp add: alphabet_def)
  have v: "validate_roman ''MCMXCIV''" by code_simp
  from C1_validate_roman_iff_converted[OF h1 h2] v h1 h2 show ?thesis by simp
qed

text \<open>
  C2: for every string \<open>s\<close> of length at most 15 over I, V, X, L, C, D, M the structural
  validator and the pattern validator agree.
\<close>

theorem C2_validators_agree:
  assumes "length s \<le> 15" "set s \<subseteq> set alphabet"
  shows "validate_roman s = regex_roman s"
  by (rule validate_roman_regex_roman)

theorem C2_validators_agree_witness:
  "length ''XLIX'' \<le> 15 \<and> set ''XLIX'' \<subseteq> set alphabet \<and>
   validate_roman ''XLIX'' \<and> regex_roman ''XLIX'' \<and>
   length ''IIX'' \<le> 15 \<and> set ''IIX'' \<subseteq> set alphabet \<and>
   \<not> validate_roman ''IIX'' \<and> \<not> regex_roman ''IIX''"
proof -
  have h: "length ''XLIX'' \<le> 15" "set ''XLIX'' \<subseteq> set alphabet"
    "length ''IIX'' \<le> 15" "set ''IIX'' \<subseteq> set alphabet"
    by (simp_all add: alphabet_def)
  have v: "validate_roman ''XLIX''" "\<not> validate_roman ''IIX''" by code_simp+
  from C2_validators_agree[OF h(1,2)] C2_validators_agree[OF h(3,4)] v h show ?thesis by simp
qed

text \<open>
  C3: for every integer \<open>n\<close> with 1 \<le> n \<le> 3999, \<open>int_converter n\<close> returns a string that
  \<open>roman_converter\<close> evaluates back to \<open>n\<close> and that \<open>validate_roman\<close> accepts; 1 is
  converted to I and 3999 to MMMCMXCIX.
\<close>

theorem C3_round_trip:
  assumes "1 \<le> n" "n \<le> 3999"
  shows "(\<exists>s. int_converter n = Some s \<and> roman_converter s = n \<and> validate_roman s) \<and>
    int_converter 1 = Some ''I'' \<and> int_converter 3999 = Some ''MMMCMXCIX''"
proof -
  from assms have c: "int_converter n = Some (canonical (nat n))" and le: "nat n \<le> 3999"
    by (simp_all add: int_converter_canonical)
  from le assms have "roman_converter (canonical (nat n)) = n"
    by (simp add: roman_converter_canonical)
  moreover from le have "validate_roman (canonical (nat n))"
    unfolding validate_roman_canonical by blast
  moreover have "int_converter 1 = Some ''I''" "int_converter 3999 = Some ''MMMCMXCIX''"
    by code_simp+
  ultimately show ?thesis using c by simp
qed

theorem C3_round_trip_witness:
  "(1::int) \<le> 1994 \<and> (1994::int) \<le> 3999 \<and> int_converter 1994 = Some ''MCMXCIV'' \<and>
   roman_converter ''MCMXCIV'' = 1994 \<and> validate_roman ''MCMXCIV''"
proof -
  have h: "(1::int) \<le> 1994" "(1994::int) \<le> 3999" by simp_all
  have c: "int_converter 1994 = Some ''MCMXCIV''" by code_simp
  from C3_round_trip[OF h] c show ?thesis by simp
qed

text \<open>
  C4 (as stated, refuted): neither validator returns false on the empty string.
\<close>

theorem C4_empty_counterexample: "\<not> (\<not> validate_roman [] \<and> \<not> regex_roman [])"
  by (simp add: regex_roman_def pattern_def)

text \<open>
  C4 (amended): both validators accept the empty string: \<open>validate_roman\<close> and
  \<open>regex_roman\<close> return true on it.
\<close>

theorem C4_empty_accepted: "validate_roman [] = True \<and> regex_roman [] = True"
  by (simp add: validate_roman_vrun regex_roman_def pattern_def)

text \<open>
  C5: for every \<open>n\<close> in [1,3999], \<open>int_converter n\<close> is one fixed string; that string is
  a valid representation of \<open>n\<close> (non-empty, accepted by \<open>validate_roman\<close>, evaluated to
  \<open>n\<close> by \<open>roman_converter\<close>), and it is a shortest one: no non-empty string that
  \<open>validate_roman\<close> accepts and \<open>roman_converter\<close> evaluates to \<open>n\<close> is shorter.
\<close>

theorem C5_shortest:
  assumes "1 \<le> n" "n \<le> 3999"
  shows "\<exists>r. int_converter n = Some r \<and> (\<forall>r'. int_converter n = Some r' \<longrightarrow> r' = r) \<and>
    r \<noteq> [] \<and> validate_roman r \<and> roman_converter r = n \<and>
    (\<forall>s. s \<noteq> [] \<and> validate_roman s \<and> roman_converter s = n \<longrightarrow> length r \<le> length s)"
proof -
  from assms have c: "int_converter n = Some (canonical (nat n))" and le: "nat n \<le> 3999"
    and nz: "nat n \<noteq> 0"
    by (simp_all add: int_converter_canonical)
  from le nz have ne: "canonical (nat n) \<noteq> []"
    using canonical_empty[of "nat n"] by simp
  from le have va: "validate_roman (canonical (nat n))"
    unfolding validate_roman_canonical by blast
  from le assms have ev: "roman_converter (canonical (nat n)) = n"
    by (simp add: roman_converter_canonical)
  have "length (canonical (nat n)) \<le> length s"
    if s: "s \<noteq> [] \<and> validate_roman s \<and> roman_converter s = n" for s
  proof -
    from s obtain m where m: "m \<le> 3999" "s = canonical m"
      by (auto simp: validate_roman_canonical)
    with s have "int m = n" by (simp add: roman_converter_canonical)
    then have "m = nat n" by simp
    with m show ?thesis by simp
  qed
  with c ne va ev show ?thesis by simp
qed

theorem C5_shortest_witness:
  "(1::int) \<le> 8 \<and> (8::int) \<le> 3999 \<and> int_converter 8 = Some ''VIII'' \<and>
   ''VIII'' \<noteq> [] \<and> validate_roman ''VIII'' \<and> roman_converter ''VIII'' = 8 \<and>
   length ''VIII'' \<le> length ''VIII'' \<and> \<not> validate_roman ''IIX''"
proof -
  have h: "(1::int) \<le> 8" "(8::int) \<le> 3999" by simp_all
  have c: "int_converter 8 = Some ''VIII''" "validate_roman ''VIII''"
    "roman_converter ''VIII'' = 8" "\<not> validate_roman ''IIX''"
    by code_simp+
  from C5_shortest[OF h] c show ?thesis by simp
qed

text \<open>
  C6: \<open>validate_roman\<close> returns false on IIII, VV, IXL, MMMM, IL and CCCM.
\<close>

theorem C6_known_invalid:
  "\<not> validate_roman ''IIII'' \<and> \<not> validate_roman ''VV'' \<and> \<not> validate_roman ''IXL'' \<and>
   \<not> validate_roman ''MMMM'' \<and> \<not> validate_roman ''IL'' \<and> \<not> validate_roman ''CCCM''"
  by code_simp

text \<open>
  C7: MCMXCIV, IV, IX, III, M and MMMCMXCIX are accepted by \<open>validate_roman\<close>, and
  \<open>roman_converter\<close> maps them to 1994, 4, 9, 3, 1000 and 3999.
\<close>

theorem C7_known_valid:
  "validate_roman ''MCMXCIV'' \<and> roman_converter ''MCMXCIV'' = 1994 \<and>
   validate_roman ''IV'' \<and> roman_converter ''IV'' = 4 \<and>
   validate_roman ''IX'' \<and> roman_converter ''IX'' = 9 \<and>
   validate_roman ''III'' \<and> roman_converter ''III'' = 3 \<and>
   validate_roman ''M'' \<and> roman_converter ''M'' = 1000 \<and>
   validate_roman ''MMMCMXCIX'' \<and> roman_converter ''MMMCMXCIX'' = 3999"
  by code_simp

text \<open>
  C8 (as stated, refuted): the empty string is the numeral of no number in [1,3999], and
  \<open>validate_roman\<close> does not reject it.
\<close>

theorem C8_empty_counterexample:
  "\<not> ((\<forall>n. 1 \<le> n \<and> n \<le> 3999 \<longrightarrow> int_converter n \<noteq> Some []) \<longrightarrow> \<not> validate_roman [])"
proof -
  have "validate_roman []"
    by (simp add: validate_roman_vrun)
  moreover have "\<forall>n. 1 \<le> n \<and> n \<le> 3999 \<longrightarrow> int_converter n \<noteq> Some []"
    using validate_roman_int_converter[of "[]"] by simp
  ultimately show ?thesis by simp
qed

text \<open>
  C8 (amended): every string accepted by \<open>validate_roman\<close> has length at most 15; every
  longer string is rejected, and so is every non-empty string of any length that is not the
  numeral of a number in [1,3999]; for every \<open>n\<close> in [1,3999] the string built by
  \<open>int_converter\<close> has length at most 15 and fits the buffer of \<open>MAX_ROMAN_LENGTH\<close> = 20
  bytes with its terminator.
\<close>

theorem C8_length_bounds:
  "(\<forall>s. validate_roman s \<longrightarrow> length s \<le> 15) \<and>
   (\<forall>s. 15 < length s \<longrightarrow> \<not> validate_roman s) \<and>
   (\<forall>s. s \<noteq> [] \<and> (\<forall>n. 1 \<le> n \<and> n \<le> 3999 \<longrightarrow> int_converter n \<noteq> Some s) \<longrightarrow>
        \<not> validate_roman s) \<and>
   (\<forall>n. 1 \<le> n \<and> n \<le> 3999 \<longrightarrow>
        (\<exists>r. int_converter n = Some r \<and> length r \<le> 15 \<and> length r + 1 < MAX_ROMAN_LENGTH))"
proof -
  have a: "length s \<le> 15" if "validate_roman s" for s
    using that length_canonical by (auto simp: validate_roman_canonical)
  have b: "\<not> validate_roman s"
    if "s \<noteq> [] \<and> (\<forall>n. 1 \<le> n \<and> n \<le> 3999 \<longrightarrow> int_converter n \<noteq> Some s)" for s
    using that validate_roman_int_converter[of s] by blast
  have c: "\<exists>r. int_converter n = Some r \<and> length r \<le> 15 \<and> length r + 1 < MAX_ROMAN_LENGTH"
    if "1 \<le> n \<and> n \<le> 3999" for n
  proof -
    from that have "nat n \<le> 3999" by linarith
    from length_canonical[OF this] that show ?thesis
      by (simp add: int_converter_canonical MAX_ROMAN_LENGTH_def)
  qed
  from a b c show ?thesis by fastforce
qed

theorem C8_length_bounds_witness:
  "validate_roman ''MMMDCCCLXXXVIII'' \<and> length ''MMMDCCCLXXXVIII'' \<le> 15 \<and>
   15 < length ''MMMDCCCLXXXVIIII'' \<and> \<not> validate_roman ''MMMDCCCLXXXVIIII'' \<and>
   ''IIX'' \<noteq> [] \<and> \<not> validate_roman ''IIX'' \<and>
   (\<exists>r. int_converter 3888 = Some r \<and> length r \<le> 15 \<and> length r + 1 < MAX_ROMAN_LENGTH)"
proof -
  have v: "validate_roman ''MMMDCCCLXXXVIII''" "\<not> validate_roman ''IIX''" by code_simp+
  have l: "15 < length ''MMMDCCCLXXXVIIII''" by simp
  from C8_length_bounds v l show ?thesis by simp
qed

text \<open>
  C9: in every string accepted by \<open>validate_roman\<close> each of V, L and D occurs at most
  once; a string in which one of them occurs a second time is rejected, wherever the two
  occurrences stand and whatever follows.
\<close>

theorem C9_no_repeat_of_V_L_D:
  "(validate_roman s \<longrightarrow>
      count_list s CHR ''V'' \<le> 1 \<and> count_list s CHR ''L'' \<le> 1 \<and> count_list s CHR ''D'' \<le> 1) \<and>
   ((c = CHR ''V'' \<or> c = CHR ''L'' \<or> c = CHR ''D'') \<and> c \<in> set p \<longrightarrow>
      \<not> validate_roman (p @ c # t))"
proof -
  have a: "count_list w CHR ''V'' \<le> 1 \<and> count_list w CHR ''L'' \<le> 1 \<and>
      count_list w CHR ''D'' \<le> 1" if "validate_roman w" for w
    using that count_canonical by (auto simp: validate_roman_canonical)
  have "\<not> validate_roman (p @ c # t)"
    if h: "(c = CHR ''V'' \<or> c = CHR ''L'' \<or> c = CHR ''D'') \<and> c \<in> set p"
  proof
    assume "validate_roman (p @ c # t)"
    from a[OF this] h have "count_list p c + 1 \<le> 1"
      by auto
    moreover from h have "count_list p c \<noteq> 0"
      unfolding count_list_0_iff by simp
    ultimately show False by simp
  qed
  with a show ?thesis by blast
qed

theorem C9_no_repeat_of_V_L_D_witness:
  "validate_roman ''DXLV'' \<and> count_list ''DXLV'' CHR ''V'' \<le> 1 \<and>
   count_list ''DXLV'' CHR ''L'' \<le> 1 \<and> count_list ''DXLV'' CHR ''D'' \<le> 1 \<and>
   CHR ''V'' \<in> set ''VI'' \<and> \<not> validate_roman (''VI'' @ CHR ''V'' # ''I'')"
proof -
  have v: "validate_roman ''DXLV''" by code_simp
  have m: "CHR ''V'' \<in> set ''VI''" by simp
  from C9_no_repeat_of_V_L_D[of "''DXLV''" "CHR ''V''" "''VI''" "''I''"] v m
  show ?thesis by simp
qed

text \<open>
  C10: for every non-empty string \<open>s\<close> over I, V, X, L, C, D, M that \<open>validate_roman\<close>
  accepts, the evaluator's result lies in [1,3999].
\<close>

theorem C10_evaluator_in_range:
  assumes "s \<noteq> []" "set s \<subseteq> set alphabet" "validate_roman s"
  shows "1 \<le> roman_converter s \<and> roman_converter s \<le> 3999"
proof -
  from assms(3) obtain n where n: "n \<le> 3999" "s = canonical n"
    by (auto simp: validate_roman_canonical)
  with assms(1) have "n \<noteq> 0" using canonical_empty[of n] by auto
  with n show ?thesis by (simp add: roman_converter_canonical)
qed

theorem C10_evaluator_in_range_witness:
  "''MMMCMXCIX'' \<noteq> [] \<and> set ''MMMCMXCIX'' \<subseteq> set alphabet \<and> validate_roman ''MMMCMXCIX'' \<and>
   1 \<le> roman_converter ''MMMCMXCIX'' \<and> roman_converter ''MMMCMXCIX'' \<le> 3999"
proof -
  have h: "''MMMCMXCIX'' \<noteq> []" "set ''MMMCMXCIX'' \<subseteq> set alphabet"
    by (simp_all add: alphabet_def)
  have v: "validate_roman ''MMMCMXCIX''" by code_simp
  from C10_evaluator_in_range[OF h v] h v show ?thesis by simp
qed

end
